theory Spec2Isabelle
  imports Main "HOL-Library.Word" "HOL-Library.Sublist"
begin

unbundle bit_operations_syntax

section \<open>JavaScript strings\<close>

text \<open>
  A JavaScript string is a sequence of UTF-16 code units. String literals of the source
  are ASCII and are written through \<open>js\<close>.
\<close>

type_synonym js_string = "16 word list"

definition js :: "string \<Rightarrow> js_string" where
  "js s = map of_char s"

text \<open>
  \<open>String.prototype.trim\<close> removes white space and line terminators from both ends:
  TAB, LF, VT, FF, CR, SP, NBSP, U+1680, U+2000..U+200A, U+2028, U+2029, U+202F, U+205F,
  U+3000 and U+FEFF.
\<close>

definition is_js_space :: "16 word \<Rightarrow> bool" where
  "is_js_space c \<longleftrightarrow>
     c = 0x0009 \<or> c = 0x000A \<or> c = 0x000B \<or> c = 0x000C \<or> c = 0x000D \<or> c = 0x0020 \<or>
     c = 0x00A0 \<or> c = 0x1680 \<or> (0x2000 \<le> c \<and> c \<le> 0x200A) \<or> c = 0x2028 \<or> c = 0x2029 \<or>
     c = 0x202F \<or> c = 0x205F \<or> c = 0x3000 \<or> c = 0xFEFF"

definition trim :: "js_string \<Rightarrow> js_string" where
  "trim s = rev (dropWhile is_js_space (rev (dropWhile is_js_space s)))"

section \<open>Tasks and the task store (App.jsx)\<close>

text \<open>
  A todo object as \<open>addTodo\<close> builds it. \<open>id\<close> is the value of \<open>Date.now()\<close>, an
  integral number of milliseconds; \<open>priority\<close> is whatever string the caller passes.
\<close>

record todo =
  id_of :: int
  text_of :: js_string
  completed :: bool
  priority :: js_string
  createdAt :: js_string

text \<open>
  \<open>addTodo(text, priority)\<close>, lines 25-35. The two clock readings \<open>Date.now()\<close> and
  \<open>new Date().toISOString()\<close> are inputs \<open>now\<close> and \<open>stamp\<close>; the result is the updater
  applied to \<open>prev\<close>, and the early \<open>return\<close> leaves \<open>prev\<close> as it is. An empty string is
  the only falsy string, so \<open>!text.trim()\<close> holds exactly when the trimmed text is empty.
\<close>

definition addTodo :: "int \<Rightarrow> js_string \<Rightarrow> js_string \<Rightarrow> js_string \<Rightarrow> todo list \<Rightarrow> todo list" where
  "addTodo now stamp text p prev =
     (if trim text = [] then prev
      else (let newTodo = \<lparr>id_of = now, text_of = text, completed = False, priority = p,
                            createdAt = stamp\<rparr>
            in newTodo # prev))"

text \<open>\<open>toggleTodo(id)\<close>, lines 37-40.\<close>

definition toggleTodo :: "int \<Rightarrow> todo list \<Rightarrow> todo list" where
  "toggleTodo i prev = map (\<lambda>t. if id_of t = i then t\<lparr>completed := \<not> completed t\<rparr> else t) prev"

text \<open>\<open>deleteTodo(id)\<close>, lines 42-43.\<close>

definition deleteTodo :: "int \<Rightarrow> todo list \<Rightarrow> todo list" where
  "deleteTodo i prev = filter (\<lambda>t. id_of t \<noteq> i) prev"

text \<open>\<open>clearCompleted()\<close>, lines 45-46.\<close>

definition clearCompleted :: "todo list \<Rightarrow> todo list" where
  "clearCompleted prev = filter (\<lambda>t. \<not> completed t) prev"

text \<open>\<open>filteredTodos\<close>, lines 48-52: the visible tasks for the current filter string.\<close>

definition filteredTodos :: "todo list \<Rightarrow> js_string \<Rightarrow> todo list" where
  "filteredTodos todos flt =
     (if flt = js ''active'' then filter (\<lambda>t. \<not> completed t) todos
      else if flt = js ''completed'' then filter (\<lambda>t. completed t) todos
      else todos)"

text \<open>The user intents that change the collection, and a run of them from a start state.\<close>

datatype intent =
    Add int js_string js_string js_string
  | Toggle int
  | Delete int
  | ClearCompleted

fun dispatch :: "todo list \<Rightarrow> intent \<Rightarrow> todo list" where
  "dispatch ts (Add now stamp text p) = addTodo now stamp text p ts"
| "dispatch ts (Toggle i) = toggleTodo i ts"
| "dispatch ts (Delete i) = deleteTodo i ts"
| "dispatch ts ClearCompleted = clearCompleted ts"

definition run :: "intent list \<Rightarrow> todo list" where
  "run ops = foldl dispatch [] ops"

text \<open>Two tasks used as examples below.\<close>

definition buy_milk :: todo where
  "buy_milk = \<lparr>id_of = 1700000000000, text_of = js ''Buy milk'', completed = False,
                priority = js ''low'', createdAt = js ''2023-11-14T22:13:20.000Z''\<rparr>"

definition call_bob :: todo where
  "call_bob = \<lparr>id_of = 1700000004321, text_of = js ''Call Bob'', completed = False,
                priority = js ''high'', createdAt = js ''2023-11-14T22:13:24.321Z''\<rparr>"

section \<open>JSON text (the built-ins \<open>JSON.stringify\<close> and \<open>JSON.parse\<close>)\<close>

text \<open>
  The store keeps the collection as JSON text. The two built-ins are modelled after
  ECMA-262 (sections 25.5.1 and 25.5.2) on the values the store can hold: \<open>null\<close>,
  booleans, integral numbers, strings, arrays and objects with their properties in order.
\<close>

datatype json =
    JNull
  | JBool bool
  | JNum int
  | JStr js_string
  | JArr "json list"
  | JObj "(js_string \<times> json) list"

text \<open>
  \<open>SyntaxError\<close> is the exception \<open>JSON.parse\<close> throws. \<open>Unmodelled\<close> is not a
  JavaScript outcome: it marks text that leaves the modelled fragment (a number with a
  fraction or an exponent or beyond the safe integers, an object with a repeated key or
  with an array-index key), about which the model says nothing.
\<close>

datatype js_error = SyntaxError | Unmodelled

abbreviation ch :: "char \<Rightarrow> 16 word" where
  "ch \<equiv> of_char"

subsection \<open>Serialisation\<close>

definition digit_char :: "nat \<Rightarrow> 16 word" where
  "digit_char d = 0x30 + of_nat d"

fun digits :: "nat \<Rightarrow> js_string" where
  "digits n = (if n < 10 then [digit_char n] else digits (n div 10) @ [digit_char (n mod 10)])"

declare digits.simps [simp del]

text \<open>\<open>Number::toString\<close> of an integral number below \<open>10^21\<close> in magnitude.\<close>

definition number_to_string :: "int \<Rightarrow> js_string" where
  "number_to_string n = (if n < 0 then ch CHR ''-'' # digits (nat (- n)) else digits (nat n))"

definition hex_char :: "16 word \<Rightarrow> 16 word" where
  "hex_char d = (if d < 10 then 0x30 + d else 0x57 + d)"

text \<open>\<open>UnicodeEscape\<close>: backslash, \<open>u\<close> and four lower-case hexadecimal digits.\<close>

definition unicode_escape :: "16 word \<Rightarrow> js_string" where
  "unicode_escape c =
     [0x5C, ch CHR ''u'', hex_char (drop_bit 12 c), hex_char (drop_bit 8 c AND 0xF),
      hex_char (drop_bit 4 c AND 0xF), hex_char (c AND 0xF)]"

definition is_high_surrogate :: "16 word \<Rightarrow> bool" where
  "is_high_surrogate c \<longleftrightarrow> 0xD800 \<le> c \<and> c \<le> 0xDBFF"

definition is_low_surrogate :: "16 word \<Rightarrow> bool" where
  "is_low_surrogate c \<longleftrightarrow> 0xDC00 \<le> c \<and> c \<le> 0xDFFF"

text \<open>
  The body of \<open>QuoteJSONString\<close>: the quotation mark, the backslash and the control
  characters are escaped, a surrogate code unit that is not part of a pair is escaped, and
  every other code unit (a surrogate pair included) is copied.
\<close>

fun quote_chars :: "js_string \<Rightarrow> js_string" where
  "quote_chars [] = []"
| "quote_chars (c # cs) =
     (if c = 0x08 then [0x5C, ch CHR ''b''] @ quote_chars cs
      else if c = 0x09 then [0x5C, ch CHR ''t''] @ quote_chars cs
      else if c = 0x0A then [0x5C, ch CHR ''n''] @ quote_chars cs
      else if c = 0x0C then [0x5C, ch CHR ''f''] @ quote_chars cs
      else if c = 0x0D then [0x5C, ch CHR ''r''] @ quote_chars cs
      else if c = 0x22 then [0x5C, 0x22] @ quote_chars cs
      else if c = 0x5C then [0x5C, 0x5C] @ quote_chars cs
      else if c < 0x20 then unicode_escape c @ quote_chars cs
      else if is_high_surrogate c then
        (case cs of
           [] \<Rightarrow> unicode_escape c
         | d # ds \<Rightarrow>
             if is_low_surrogate d then c # d # quote_chars ds
             else unicode_escape c @ quote_chars cs)
      else if is_low_surrogate c then unicode_escape c @ quote_chars cs
      else c # quote_chars cs)"

definition quote_json_string :: "js_string \<Rightarrow> js_string" where
  "quote_json_string s = [0x22] @ quote_chars s @ [0x22]"

fun join_comma :: "js_string list \<Rightarrow> js_string" where
  "join_comma [] = []"
| "join_comma [x] = x"
| "join_comma (x # y # ys) = x @ ch CHR '','' # join_comma (y # ys)"

text \<open>
  \<open>JSON.stringify(value)\<close> with no replacer and no indentation, so no white space is
  written: \<open>SerializeJSONProperty\<close>, \<open>SerializeJSONArray\<close> and \<open>SerializeJSONObject\<close>.
\<close>

fun JSON_stringify :: "json \<Rightarrow> js_string" where
  "JSON_stringify JNull = js ''null''"
| "JSON_stringify (JBool b) = (if b then js ''true'' else js ''false'')"
| "JSON_stringify (JNum n) = number_to_string n"
| "JSON_stringify (JStr s) = quote_json_string s"
| "JSON_stringify (JArr vs) =
     ch CHR ''['' # join_comma (map JSON_stringify vs) @ [ch CHR '']'']"
| "JSON_stringify (JObj ms) =
     ch CHR ''{'' #
     join_comma (map (\<lambda>(k, v). quote_json_string k @ ch CHR '':'' # JSON_stringify v) ms)
     @ [ch CHR ''}'']"

subsection \<open>Parsing\<close>

definition is_json_ws :: "16 word \<Rightarrow> bool" where
  "is_json_ws c \<longleftrightarrow> c = 0x09 \<or> c = 0x0A \<or> c = 0x0D \<or> c = 0x20"

definition skip_ws :: "js_string \<Rightarrow> js_string" where
  "skip_ws s = dropWhile is_json_ws s"

definition is_digit :: "16 word \<Rightarrow> bool" where
  "is_digit c \<longleftrightarrow> 0x30 \<le> c \<and> c \<le> 0x39"

definition digit_val :: "16 word \<Rightarrow> nat" where
  "digit_val c = unat c - 48"

definition hex_val :: "16 word \<Rightarrow> 16 word option" where
  "hex_val c =
     (if 0x30 \<le> c \<and> c \<le> 0x39 then Some (c - 0x30)
      else if 0x61 \<le> c \<and> c \<le> 0x66 then Some (c - 0x57)
      else if 0x41 \<le> c \<and> c \<le> 0x46 then Some (c - 0x37)
      else None)"

definition hex4 :: "16 word \<Rightarrow> 16 word \<Rightarrow> 16 word \<Rightarrow> 16 word \<Rightarrow> 16 word option" where
  "hex4 a b c d =
     (case (hex_val a, hex_val b, hex_val c, hex_val d) of
        (Some x, Some y, Some z, Some w) \<Rightarrow>
          Some (push_bit 12 x OR push_bit 8 y OR push_bit 4 z OR w)
      | _ \<Rightarrow> None)"

text \<open>
  The character after the backslash of a single-character escape (quotation mark,
  backslash, solidus, \<open>b\<close>, \<open>f\<close>, \<open>n\<close>, \<open>r\<close>, \<open>t\<close>) and the code unit it stands for.
\<close>

definition unescape :: "16 word \<Rightarrow> 16 word option" where
  "unescape e =
     (if e = 0x22 then Some 0x22
      else if e = 0x5C then Some 0x5C
      else if e = ch CHR ''/'' then Some (ch CHR ''/'')
      else if e = ch CHR ''b'' then Some 0x08
      else if e = ch CHR ''f'' then Some 0x0C
      else if e = ch CHR ''n'' then Some 0x0A
      else if e = ch CHR ''r'' then Some 0x0D
      else if e = ch CHR ''t'' then Some 0x09
      else None)"

definition cons_char ::
  "16 word \<Rightarrow> js_error + (js_string \<times> js_string) \<Rightarrow> js_error + (js_string \<times> js_string)" where
  "cons_char c r = (case r of Inl e \<Rightarrow> Inl e | Inr (s, rest) \<Rightarrow> Inr (c # s, rest))"

text \<open>
  The characters of a string literal after its opening quotation mark, up to and including
  the closing one; the result is the string value and the text that follows.
\<close>

fun parse_string_chars :: "js_string \<Rightarrow> js_error + (js_string \<times> js_string)" where
  "parse_string_chars [] = Inl SyntaxError"
| "parse_string_chars (c # cs) =
     (if c = 0x22 then Inr ([], cs)
      else if c = 0x5C then
        (case cs of
           [] \<Rightarrow> Inl SyntaxError
         | e # es \<Rightarrow>
             if e = ch CHR ''u'' then
               (case es of
                  h1 # h2 # h3 # h4 # rest \<Rightarrow>
                    (case hex4 h1 h2 h3 h4 of
                       None \<Rightarrow> Inl SyntaxError
                     | Some u \<Rightarrow> cons_char u (parse_string_chars rest))
                | _ \<Rightarrow> Inl SyntaxError)
             else
               (case unescape e of
                  None \<Rightarrow> Inl SyntaxError
                | Some u \<Rightarrow> cons_char u (parse_string_chars es)))
      else if c < 0x20 then Inl SyntaxError
      else cons_char c (parse_string_chars cs))"

definition digits_value :: "js_string \<Rightarrow> nat" where
  "digits_value ds = foldl (\<lambda>a d. 10 * a + digit_val d) 0 ds"

text \<open>The integer part of a number: a single \<open>0\<close>, or a non-zero digit and further digits.\<close>

definition parse_int_part :: "js_string \<Rightarrow> js_error + (nat \<times> js_string)" where
  "parse_int_part s =
     (case s of
        [] \<Rightarrow> Inl SyntaxError
      | c # cs \<Rightarrow>
          if c = ch CHR ''0'' then Inr (0, cs)
          else if is_digit c then Inr (digits_value (takeWhile is_digit s), dropWhile is_digit s)
          else Inl SyntaxError)"

definition max_safe_integer :: int where
  "max_safe_integer = 2 ^ 53 - 1"

definition starts_fraction_or_exponent :: "js_string \<Rightarrow> bool" where
  "starts_fraction_or_exponent s =
     (case s of [] \<Rightarrow> False | c # _ \<Rightarrow> c = ch CHR ''.'' \<or> c = ch CHR ''e'' \<or> c = ch CHR ''E'')"

definition parse_number :: "js_string \<Rightarrow> js_error + (json \<times> js_string)" where
  "parse_number s =
     (let neg = (case s of [] \<Rightarrow> False | c # _ \<Rightarrow> c = ch CHR ''-'');
          body = (if neg then tl s else s)
      in case parse_int_part body of
           Inl e \<Rightarrow> Inl e
         | Inr (n, rest) \<Rightarrow>
             if starts_fraction_or_exponent rest \<or> int n > max_safe_integer \<or> (neg \<and> n = 0)
             then Inl Unmodelled
             else Inr (JNum (if neg then - int n else int n), rest))"

text \<open>
  An array index is the canonical decimal string of an integer from 0 to \<open>2^32 - 2\<close>. An
  object lists such keys first, in numeric order, and a repeated key overwrites the earlier
  value; the model keeps to objects whose properties are in the order of the text.
\<close>

definition is_array_index :: "js_string \<Rightarrow> bool" where
  "is_array_index k \<longleftrightarrow>
     k \<noteq> [] \<and> list_all is_digit k \<and> (hd k \<noteq> ch CHR ''0'' \<or> length k = 1)
     \<and> digits_value k \<le> 4294967294"

definition plain_keys :: "js_string list \<Rightarrow> bool" where
  "plain_keys ks \<longleftrightarrow> distinct ks \<and> list_all (\<lambda>k. \<not> is_array_index k) ks"

definition parse_literal :: "js_string \<Rightarrow> json \<Rightarrow> js_string \<Rightarrow> js_error + (json \<times> js_string)" where
  "parse_literal lit v s =
     (if take (length lit) s = lit then Inr (v, drop (length lit) s) else Inl SyntaxError)"

text \<open>
  The recursive descent over values, array elements and object members. \<open>parse_elements\<close>
  and \<open>parse_members\<close> start at the first element or member, after the opening bracket and
  white space, and consume the closing bracket. A value consumes at least one character;
  the comparisons of lengths state this where the recursion depends on it.
\<close>

function (sequential)
  parse_value :: "js_string \<Rightarrow> js_error + (json \<times> js_string)" and
  parse_elements :: "js_string \<Rightarrow> js_error + (json list \<times> js_string)" and
  parse_members :: "js_string \<Rightarrow> js_error + ((js_string \<times> json) list \<times> js_string)"
where
  "parse_value [] = Inl SyntaxError"
| "parse_value (c # cs) =
     (if c = 0x22 then
        (case parse_string_chars cs of Inl e \<Rightarrow> Inl e | Inr (s, rest) \<Rightarrow> Inr (JStr s, rest))
      else if c = ch CHR ''['' then
        (case skip_ws cs of
           [] \<Rightarrow> Inl SyntaxError
         | d # ds \<Rightarrow>
             if d = ch CHR '']'' then Inr (JArr [], ds)
             else (case parse_elements (d # ds) of
                     Inl e \<Rightarrow> Inl e
                   | Inr (vs, rest) \<Rightarrow> Inr (JArr vs, rest)))
      else if c = ch CHR ''{'' then
        (case skip_ws cs of
           [] \<Rightarrow> Inl SyntaxError
         | d # ds \<Rightarrow>
             if d = ch CHR ''}'' then Inr (JObj [], ds)
             else (case parse_members (d # ds) of
                     Inl e \<Rightarrow> Inl e
                   | Inr (ms, rest) \<Rightarrow>
                       if plain_keys (map fst ms) then Inr (JObj ms, rest)
                       else Inl Unmodelled))
      else if c = ch CHR ''n'' then parse_literal (js ''null'') JNull (c # cs)
      else if c = ch CHR ''t'' then parse_literal (js ''true'') (JBool True) (c # cs)
      else if c = ch CHR ''f'' then parse_literal (js ''false'') (JBool False) (c # cs)
      else parse_number (c # cs))"
| "parse_elements s =
     (case parse_value s of
        Inl e \<Rightarrow> Inl e
      | Inr (v, rest) \<Rightarrow>
          if length rest < length s then
            (case skip_ws rest of
               [] \<Rightarrow> Inl SyntaxError
             | d # ds \<Rightarrow>
                 if d = ch CHR '']'' then Inr ([v], ds)
                 else if d = ch CHR '','' then
                   (case parse_elements (skip_ws ds) of
                      Inl e \<Rightarrow> Inl e
                    | Inr (vs, rest') \<Rightarrow> Inr (v # vs, rest'))
                 else Inl SyntaxError)
          else Inl SyntaxError)"
| "parse_members [] = Inl SyntaxError"
| "parse_members (q # s) =
     (if q \<noteq> 0x22 then Inl SyntaxError
      else case parse_string_chars s of
        Inl e \<Rightarrow> Inl e
      | Inr (k, rest) \<Rightarrow>
          if length rest \<le> length s then
            (case skip_ws rest of
               [] \<Rightarrow> Inl SyntaxError
             | colon # after \<Rightarrow>
                 if colon \<noteq> ch CHR '':'' then Inl SyntaxError
                 else
                   (case parse_value (skip_ws after) of
                      Inl e \<Rightarrow> Inl e
                    | Inr (v, rest') \<Rightarrow>
                        if length rest' < length (skip_ws after) then
                          (case skip_ws rest' of
                             [] \<Rightarrow> Inl SyntaxError
                           | d # ds \<Rightarrow>
                               if d = ch CHR ''}'' then Inr ([(k, v)], ds)
                               else if d = ch CHR '','' then
                                 (case parse_members (skip_ws ds) of
                                    Inl e \<Rightarrow> Inl e
                                  | Inr (ms, rest'') \<Rightarrow> Inr ((k, v) # ms, rest''))
                               else Inl SyntaxError)
                        else Inl SyntaxError))
          else Inl SyntaxError)"
  by pat_completeness auto

lemma length_skip_ws: "length (skip_ws s) \<le> length s"
  by (simp add: skip_ws_def length_dropWhile_le)

lemma skip_ws_Cons_length: "skip_ws s = d # ds \<Longrightarrow> length ds < length s"
  using length_skip_ws [of s] by simp

termination parse_value
proof (relation "measure (\<lambda>x. case x of Inl s \<Rightarrow> 2 * length s
                                      | Inr (Inl s) \<Rightarrow> 2 * length s + 1
                                      | Inr (Inr s) \<Rightarrow> 2 * length s + 1)", goal_cases)
  case 1
  show ?case by simp
next
  case (2 c cs d ds)
  then show ?case using skip_ws_Cons_length [of cs d ds] by simp
next
  case (3 c cs d ds)
  then show ?case using skip_ws_Cons_length [of cs d ds] by simp
next
  case (4 s)
  show ?case by simp
next
  case (5 s x v rest d ds)
  then show ?case using skip_ws_Cons_length [of rest d ds] length_skip_ws [of ds] by simp
next
  case (6 q s x k rest colon after)
  then show ?case using skip_ws_Cons_length [of rest colon after] length_skip_ws [of after] by simp
next
  case (7 q s x k rest colon after y v rest' d ds)
  then show ?case
    using skip_ws_Cons_length [of rest colon after] length_skip_ws [of after]
      skip_ws_Cons_length [of rest' d ds] length_skip_ws [of ds] by simp
qed

text \<open>
  \<open>JSON.parse(text)\<close> with no reviver: one value, with white space allowed around it and
  nothing else after it.
\<close>

definition JSON_parse :: "js_string \<Rightarrow> js_error + json" where
  "JSON_parse s =
     (case parse_value (skip_ws s) of
        Inl e \<Rightarrow> Inl e
      | Inr (v, rest) \<Rightarrow> if skip_ws rest = [] then Inr v else Inl SyntaxError)"

section \<open>Persistence (App.jsx, lines 7-10 and 17-19)\<close>

text \<open>
  \<open>localStorage\<close> maps keys to strings; \<open>getItem\<close> gives \<open>null\<close> (here \<open>None\<close>) for a key
  that is not there.
\<close>

type_synonym storage = "js_string \<rightharpoonup> js_string"

text \<open>The todo objects as JavaScript values, with the properties in the order of lines 27-33.\<close>

definition json_of_todo :: "todo \<Rightarrow> json" where
  "json_of_todo t =
     JObj [(js ''id'', JNum (id_of t)),
           (js ''text'', JStr (text_of t)),
           (js ''completed'', JBool (completed t)),
           (js ''priority'', JStr (priority t)),
           (js ''createdAt'', JStr (createdAt t))]"

definition json_of_todos :: "todo list \<Rightarrow> json" where
  "json_of_todos ts = JArr (map json_of_todo ts)"

text \<open>
  The record that the property reads \<open>t.id\<close>, \<open>t.text\<close>, \<open>t.completed\<close>, \<open>t.priority\<close> and
  \<open>t.createdAt\<close> see in a parsed object, when each has the type \<open>addTodo\<close> gives it.
\<close>

definition todo_of_json :: "json \<Rightarrow> todo option" where
  "todo_of_json v =
     (case v of
        JObj ms \<Rightarrow>
          (case (map_of ms (js ''id''), map_of ms (js ''text''), map_of ms (js ''completed''),
                 map_of ms (js ''priority''), map_of ms (js ''createdAt'')) of
             (Some (JNum i), Some (JStr x), Some (JBool c), Some (JStr p), Some (JStr d)) \<Rightarrow>
               Some \<lparr>id_of = i, text_of = x, completed = c, priority = p, createdAt = d\<rparr>
           | _ \<Rightarrow> None)
      | _ \<Rightarrow> None)"

fun those_todos :: "json list \<Rightarrow> todo list option" where
  "those_todos [] = Some []"
| "those_todos (v # vs) =
     (case todo_of_json v of
        None \<Rightarrow> None
      | Some t \<Rightarrow> (case those_todos vs of None \<Rightarrow> None | Some ts \<Rightarrow> Some (t # ts)))"

definition todos_of_json :: "json \<Rightarrow> todo list option" where
  "todos_of_json v = (case v of JArr vs \<Rightarrow> those_todos vs | _ \<Rightarrow> None)"

text \<open>
  The initial state of \<open>todos\<close>, lines 7-10: \<open>saved ? JSON.parse(saved) : []\<close>. \<open>null\<close> and
  the empty string are the falsy values \<open>getItem\<close> can give. There is no \<open>try\<close> around the
  call, so what \<open>JSON.parse\<close> throws leaves the initialiser.
\<close>

definition load_todos :: "storage \<Rightarrow> js_error + json" where
  "load_todos st =
     (case st (js ''modern_todos'') of
        None \<Rightarrow> Inr (JArr [])
      | Some saved \<Rightarrow> if saved = [] then Inr (JArr []) else JSON_parse saved)"

text \<open>The effect of lines 17-19, run after every change of \<open>todos\<close>.\<close>

definition persist_todos :: "storage \<Rightarrow> todo list \<Rightarrow> storage" where
  "persist_todos st todos = st(js ''modern_todos'' \<mapsto> JSON_stringify (json_of_todos todos))"

text \<open>
  \<open>Date.now()\<close> is an integer of magnitude at most \<open>8.64 * 10^15\<close>, below
  \<open>Number.MAX_SAFE_INTEGER\<close>; a well-formed task has such an id.
\<close>

definition wf_todo :: "todo \<Rightarrow> bool" where
  "wf_todo t \<longleftrightarrow> \<bar>id_of t\<bar> \<le> max_safe_integer"

section \<open>Well-formed values\<close>

text \<open>
  The values of the modelled fragment: every number is a safe integer and every object has
  plain keys, so that the text of the value is read back inside the fragment.
\<close>

fun wf_json :: "json \<Rightarrow> bool" where
  "wf_json JNull = True"
| "wf_json (JBool b) = True"
| "wf_json (JNum n) = (\<bar>n\<bar> \<le> max_safe_integer)"
| "wf_json (JStr s) = True"
| "wf_json (JArr vs) = list_all wf_json vs"
| "wf_json (JObj ms) = (plain_keys (map fst ms) \<and> list_all (\<lambda>(k, v). wf_json v) ms)"

text \<open>What may follow a value inside a text: nothing, a comma or a closing bracket.\<close>

definition value_end :: "js_string \<Rightarrow> bool" where
  "value_end rest \<longleftrightarrow>
     (case rest of [] \<Rightarrow> True
      | c # _ \<Rightarrow> c = ch CHR '','' \<or> c = ch CHR '']'' \<or> c = ch CHR ''}'')"

text \<open>The first character of a serialised value.\<close>

definition value_start :: "16 word \<Rightarrow> bool" where
  "value_start c \<longleftrightarrow>
     c = 0x22 \<or> c = ch CHR ''['' \<or> c = ch CHR ''{'' \<or> c = ch CHR ''n'' \<or> c = ch CHR ''t''
     \<or> c = ch CHR ''f'' \<or> c = ch CHR ''-'' \<or> (\<exists>k < 10. c = digit_char k)"

text \<open>
  The equations of the parser are unfolded by hand: \<open>parse_elements\<close> has an equation for
  every argument.
\<close>

declare parse_value.simps [simp del] parse_elements.simps [simp del] parse_members.simps [simp del]

section \<open>The parser consumes its input\<close>

lemma cons_char_Inr:
  "cons_char c res = Inr (x, r) \<Longrightarrow> \<exists>y. res = Inr (y, r) \<and> x = c # y"
  by (auto simp: cons_char_def split: sum.splits)

lemma parse_string_chars_shorter:
  "parse_string_chars s = Inr (x, r) \<Longrightarrow> length r < length s"
proof (induction s arbitrary: x r rule: parse_string_chars.induct)
  case 1
  then show ?case by simp
next
  case (2 c cs)
  show ?case
  proof (cases "c = 0x22")
    case True
    then show ?thesis using "2.prems" by simp
  next
    case False
    note nq = this
    show ?thesis
    proof (cases "c = 0x5C")
      case False
      then have "cons_char c (parse_string_chars cs) = Inr (x, r)"
        using "2.prems" nq by (simp split: if_splits)
      then obtain y where "parse_string_chars cs = Inr (y, r)"
        using cons_char_Inr by blast
      moreover have "\<not> c < 0x20" using "2.prems" nq False by (simp split: if_splits)
      ultimately have "length r < length cs"
        using "2.IH"(3) nq False by blast
      then show ?thesis by simp
    next
      case True
      note bs = this
      then obtain e es where cs: "cs = e # es"
        using "2.prems" nq by (cases cs) simp_all
      show ?thesis
      proof (cases "e = ch CHR ''u''")
        case True
        then obtain h1 h2 h3 h4 rest u where es: "es = h1 # h2 # h3 # h4 # rest"
          and u: "hex4 h1 h2 h3 h4 = Some u"
          and c: "cons_char u (parse_string_chars rest) = Inr (x, r)"
          using "2.prems" nq bs cs
          by (auto split: list.splits option.splits)
        then obtain y where "parse_string_chars rest = Inr (y, r)"
          using cons_char_Inr by blast
        then have "length r < length rest"
          using "2.IH"(1) [OF nq bs cs True _ _ _ _ u] es by blast
        then show ?thesis using cs es by simp
      next
        case False
        then obtain u where u: "unescape e = Some u"
          and c: "cons_char u (parse_string_chars es) = Inr (x, r)"
          using "2.prems" nq bs cs
          by (auto split: option.splits)
        then obtain y where "parse_string_chars es = Inr (y, r)"
          using cons_char_Inr by blast
        then have "length r < length es"
          using "2.IH"(2) [OF nq bs cs False u] by blast
        then show ?thesis using cs by simp
      qed
    qed
  qed
qed

lemma parse_int_part_shorter: "parse_int_part s = Inr (n, r) \<Longrightarrow> length r < length s"
proof (cases s)
  case Nil
  then show "parse_int_part s = Inr (n, r) \<Longrightarrow> ?thesis" by (simp add: parse_int_part_def)
next
  case (Cons c cs)
  assume "parse_int_part s = Inr (n, r)"
  then have "r = cs \<or> (is_digit c \<and> r = dropWhile is_digit cs)"
    using Cons by (auto simp: parse_int_part_def split: if_splits)
  then show ?thesis
    using Cons length_dropWhile_le [of is_digit cs] by auto
qed

lemma parse_number_shorter: "parse_number s = Inr (v, r) \<Longrightarrow> length r < length s"
proof -
  assume a: "parse_number s = Inr (v, r)"
  then obtain n body where "parse_int_part body = Inr (n, r)" "body = s \<or> body = tl s"
    by (auto simp: parse_number_def Let_def split: sum.splits if_splits)
  then show ?thesis
    using parse_int_part_shorter [of body n r] by (cases s) auto
qed

lemma parse_literal_shorter:
  "parse_literal lit w s = Inr (v, r) \<Longrightarrow> lit \<noteq> [] \<Longrightarrow> length r < length s"
proof -
  assume a: "parse_literal lit w s = Inr (v, r)" and l: "lit \<noteq> []"
  then have t: "take (length lit) s = lit" and r: "r = drop (length lit) s"
    by (auto simp: parse_literal_def split: if_splits)
  from t l have "s \<noteq> []" by auto
  then show ?thesis using r l by simp
qed

lemma parse_shorter:
  shows "parse_value s = Inr (v, r) \<Longrightarrow> length r < length s"
    and "parse_elements s2 = Inr (vs, r2) \<Longrightarrow> length r2 < length s2"
    and "parse_members s3 = Inr (ms, r3) \<Longrightarrow> length r3 < length s3"
proof (induction s and s2 and s3 arbitrary: v r and vs r2 and ms r3
       rule: parse_value_parse_elements_parse_members.induct)
  case 1
  then show ?case by (simp add: parse_value.simps)
next
  case (2 c cs)
  note prem = "2.prems" [unfolded parse_value.simps]
  consider (str) "c = 0x22"
    | (arr) "c \<noteq> 0x22" "c = ch CHR ''[''"
    | (obj) "c \<noteq> 0x22" "c \<noteq> ch CHR ''[''" "c = ch CHR ''{''"
    | (lit) "c \<noteq> 0x22" "c \<noteq> ch CHR ''[''" "c \<noteq> ch CHR ''{''"
            "c = ch CHR ''n'' \<or> c = ch CHR ''t'' \<or> c = ch CHR ''f''"
    | (num) "c \<noteq> 0x22" "c \<noteq> ch CHR ''[''" "c \<noteq> ch CHR ''{''"
            "c \<noteq> ch CHR ''n''" "c \<noteq> ch CHR ''t''" "c \<noteq> ch CHR ''f''"
    by blast
  then show ?case
  proof cases
    case str
    then obtain x where "parse_string_chars cs = Inr (x, r)"
      using prem by (auto split: sum.splits)
    then show ?thesis using parse_string_chars_shorter by fastforce
  next
    case arr
    then obtain d ds where sk: "skip_ws cs = d # ds"
      using prem by (cases "skip_ws cs") auto
    show ?thesis
    proof (cases "d = ch CHR '']''")
      case True
      then have "r = ds" using prem arr sk by simp
      then show ?thesis using skip_ws_Cons_length [OF sk] by simp
    next
      case False
      then obtain xs where "parse_elements (d # ds) = Inr (xs, r)"
        using prem arr sk by (auto split: sum.splits)
      then have "length r < length (d # ds)"
        using "2.IH"(1) [OF arr sk False] by blast
      then show ?thesis using skip_ws_Cons_length [OF sk] by simp
    qed
  next
    case obj
    then obtain d ds where sk: "skip_ws cs = d # ds"
      using prem by (cases "skip_ws cs") auto
    show ?thesis
    proof (cases "d = ch CHR ''}''")
      case True
      then have "r = ds" using prem obj sk by simp
      then show ?thesis using skip_ws_Cons_length [OF sk] by simp
    next
      case False
      then obtain xs where "parse_members (d # ds) = Inr (xs, r)"
        using prem obj sk by (auto split: sum.splits if_splits)
      then have "length r < length (d # ds)"
        using "2.IH"(2) [OF obj sk False] by blast
      then show ?thesis using skip_ws_Cons_length [OF sk] by simp
    qed
  next
    case lit
    from lit(4) show ?thesis
    proof (elim disjE)
      assume "c = ch CHR ''n''"
      then have "parse_literal (js ''null'') JNull (c # cs) = Inr (v, r)"
        using prem by simp
      then show ?thesis by (rule parse_literal_shorter) (simp add: js_def)
    next
      assume "c = ch CHR ''t''"
      then have "parse_literal (js ''true'') (JBool True) (c # cs) = Inr (v, r)"
        using prem by simp
      then show ?thesis by (rule parse_literal_shorter) (simp add: js_def)
    next
      assume "c = ch CHR ''f''"
      then have "parse_literal (js ''false'') (JBool False) (c # cs) = Inr (v, r)"
        using prem by simp
      then show ?thesis by (rule parse_literal_shorter) (simp add: js_def)
    qed
  next
    case num
    then have "parse_number (c # cs) = Inr (v, r)"
      using prem by simp
    then show ?thesis by (rule parse_number_shorter)
  qed
next
  case (3 s)
  note prem = "3.prems" [unfolded parse_elements.simps [of s]]
  from prem obtain v rest where pv: "parse_value s = Inr (v, rest)"
    by (auto split: sum.splits)
  have lt: "length rest < length s"
    using "3.IH"(1) [OF pv] .
  from prem pv lt obtain d ds where sk: "skip_ws rest = d # ds"
    by (cases "skip_ws rest") auto
  show ?case
  proof (cases "d = ch CHR '']''")
    case True
    then have "r2 = ds" using prem pv lt sk by simp
    then show ?thesis using skip_ws_Cons_length [OF sk] lt by simp
  next
    case False
    then have comma: "d = ch CHR '',''"
      using prem pv lt sk by (auto split: if_splits)
    then obtain xs where "parse_elements (skip_ws ds) = Inr (xs, r2)"
      using prem pv lt sk False by (auto split: sum.splits)
    then have "length r2 < length (skip_ws ds)"
      using "3.IH"(2) [OF pv refl lt sk False comma] by blast
    then show ?thesis
      using skip_ws_Cons_length [OF sk] lt length_skip_ws [of ds] by simp
  qed
next
  case 4
  then show ?case by (simp add: parse_members.simps)
next
  case (5 q s)
  note prem = "5.prems" [unfolded parse_members.simps]
  have q: "\<not> q \<noteq> 0x22" using prem by (auto split: if_splits)
  from prem q obtain k rest where ps: "parse_string_chars s = Inr (k, rest)"
    by (auto split: sum.splits)
  have le: "length rest \<le> length s"
    using parse_string_chars_shorter [OF ps] by simp
  from prem q ps le obtain colon after where sk: "skip_ws rest = colon # after"
    by (cases "skip_ws rest") auto
  have colon: "\<not> colon \<noteq> ch CHR '':''"
    using prem q ps le sk by (auto split: if_splits)
  from prem q ps le sk colon obtain v rest' where pv: "parse_value (skip_ws after) = Inr (v, rest')"
    by (auto split: sum.splits)
  have lt: "length rest' < length (skip_ws after)"
    using "5.IH"(1) [OF q ps refl le sk colon pv] .
  from prem q ps le sk colon pv lt obtain d ds where sk2: "skip_ws rest' = d # ds"
    by (cases "skip_ws rest'") auto
  have chain: "length ds < length s"
    using skip_ws_Cons_length [OF sk2] lt length_skip_ws [of after] skip_ws_Cons_length [OF sk] le
    by simp
  show ?case
  proof (cases "d = ch CHR ''}''")
    case True
    then have "r3 = ds" using prem q ps le sk colon pv lt sk2 by simp
    then show ?thesis using chain by simp
  next
    case False
    then have comma: "d = ch CHR '',''"
      using prem q ps le sk colon pv lt sk2 by (auto split: if_splits)
    then obtain xs where "parse_members (skip_ws ds) = Inr (xs, r3)"
      using prem q ps le sk colon pv lt sk2 False by (auto split: sum.splits)
    then have "length r3 < length (skip_ws ds)"
      using "5.IH"(2) [OF q ps refl le sk colon pv refl lt sk2 False comma] by blast
    then show ?thesis
      using chain length_skip_ws [of ds] by simp
  qed
qed

text \<open>The comparisons of lengths in the parser always hold: these are its equations without them.\<close>

lemma parse_elements_eq:
  "parse_elements s =
     (case parse_value s of
        Inl e \<Rightarrow> Inl e
      | Inr (v, rest) \<Rightarrow>
          (case skip_ws rest of
             [] \<Rightarrow> Inl SyntaxError
           | d # ds \<Rightarrow>
               if d = ch CHR '']'' then Inr ([v], ds)
               else if d = ch CHR '','' then
                 (case parse_elements (skip_ws ds) of
                    Inl e \<Rightarrow> Inl e
                  | Inr (vs, rest') \<Rightarrow> Inr (v # vs, rest'))
               else Inl SyntaxError))"
  by (subst parse_elements.simps) (auto split: sum.splits dest: parse_shorter(1))

lemma parse_members_eq:
  "parse_members (q # s) =
     (if q \<noteq> 0x22 then Inl SyntaxError
      else case parse_string_chars s of
        Inl e \<Rightarrow> Inl e
      | Inr (k, rest) \<Rightarrow>
          (case skip_ws rest of
             [] \<Rightarrow> Inl SyntaxError
           | colon # after \<Rightarrow>
               if colon \<noteq> ch CHR '':'' then Inl SyntaxError
               else
                 (case parse_value (skip_ws after) of
                    Inl e \<Rightarrow> Inl e
                  | Inr (v, rest') \<Rightarrow>
                      (case skip_ws rest' of
                         [] \<Rightarrow> Inl SyntaxError
                       | d # ds \<Rightarrow>
                           if d = ch CHR ''}'' then Inr ([(k, v)], ds)
                           else if d = ch CHR '','' then
                             (case parse_members (skip_ws ds) of
                                Inl e \<Rightarrow> Inl e
                              | Inr (ms, rest'') \<Rightarrow> Inr ((k, v) # ms, rest''))
                           else Inl SyntaxError))))"
proof -
  have a: "length rest \<le> length s" if "parse_string_chars s = Inr (k, rest)" for k rest
    using parse_string_chars_shorter [OF that] by simp
  show ?thesis
    by (subst parse_members.simps) (auto split: sum.splits list.splits dest: parse_shorter(1) a)
qed

section \<open>Reading back what \<open>JSON.stringify\<close> writes\<close>

subsection \<open>Numbers\<close>

lemma unat_digit_char: "d < 10 \<Longrightarrow> unat (digit_char d) = 48 + d"
  by (simp add: digit_char_def unat_word_ariths unat_of_nat)

lemma is_digit_digit_char: "d < 10 \<Longrightarrow> is_digit (digit_char d)"
  by (simp add: is_digit_def word_le_nat_alt unat_digit_char)

lemma digit_val_digit_char: "d < 10 \<Longrightarrow> digit_val (digit_char d) = d"
  by (simp add: digit_val_def unat_digit_char)

lemma digit_char_eq_zero: "d < 10 \<Longrightarrow> digit_char d = ch CHR ''0'' \<longleftrightarrow> d = 0"
proof -
  assume d: "d < 10"
  have "digit_char d = ch CHR ''0'' \<longleftrightarrow> unat (digit_char d) = unat (ch CHR ''0'')"
    by (simp only: word_unat_eq_iff)
  then show ?thesis using d by (simp add: unat_digit_char)
qed

lemma digits_all_digit: "list_all is_digit (digits n)"
  by (induction n rule: digits.induct) (subst digits.simps, simp add: is_digit_digit_char)

lemma digits_value_snoc: "digits_value (ds @ [d]) = 10 * digits_value ds + digit_val d"
  by (simp add: digits_value_def)

lemma digits_value_digits: "digits_value (digits n) = n"
proof (induction n rule: digits.induct)
  case (1 n)
  show ?case
  proof (cases "n < 10")
    case True
    then show ?thesis
      by (subst digits.simps) (simp add: digits_value_def digit_val_digit_char)
  next
    case False
    then show ?thesis
      using 1 by (subst digits.simps) (simp add: digits_value_snoc digit_val_digit_char)
  qed
qed

lemma digits_head: "\<exists>k ds. digits n = digit_char k # ds \<and> k < 10 \<and> (k = 0 \<longleftrightarrow> n = 0)"
proof (induction n rule: digits.induct)
  case (1 n)
  show ?case
  proof (cases "n < 10")
    case True
    then show ?thesis by (subst digits.simps) auto
  next
    case False
    from 1 [OF False]
    obtain k ds where "digits (n div 10) = digit_char k # ds" "k < 10" "k = 0 \<longleftrightarrow> n div 10 = 0"
      by auto
    then show ?thesis
      using False by (subst digits.simps) auto
  qed
qed

lemma digits_zero: "digits 0 = [ch CHR ''0'']"
  by (subst digits.simps) (simp add: digit_char_def)

lemma value_end_not_digit: "value_end rest \<Longrightarrow> rest = [] \<or> \<not> is_digit (hd rest)"
  by (auto simp: value_end_def is_digit_def split: list.splits)

lemma value_end_not_fraction: "value_end rest \<Longrightarrow> \<not> starts_fraction_or_exponent rest"
  by (auto simp: value_end_def starts_fraction_or_exponent_def split: list.splits)

lemma takeWhile_digits:
  assumes "rest = [] \<or> \<not> is_digit (hd rest)"
  shows "takeWhile is_digit (digits n @ rest) = digits n"
    and "dropWhile is_digit (digits n @ rest) = rest"
proof -
  have a: "\<forall>x \<in> set (digits n). is_digit x"
    using digits_all_digit [of n] by (simp add: list_all_iff)
  have b: "takeWhile is_digit rest = []" "dropWhile is_digit rest = rest"
    using assms by (cases rest; simp)+
  show "takeWhile is_digit (digits n @ rest) = digits n"
    using a b by (simp add: takeWhile_append2)
  show "dropWhile is_digit (digits n @ rest) = rest"
    using a b by (simp add: dropWhile_append2)
qed

lemma parse_int_part_digits:
  assumes "rest = [] \<or> \<not> is_digit (hd rest)"
  shows "parse_int_part (digits n @ rest) = Inr (n, rest)"
proof (cases "n = 0")
  case True
  then show ?thesis by (simp add: digits_zero parse_int_part_def)
next
  case False
  obtain k ds where k: "digits n = digit_char k # ds" "k < 10" "k = 0 \<longleftrightarrow> n = 0"
    using digits_head [of n] by blast
  have c0: "digit_char k \<noteq> ch CHR ''0''"
    using k False digit_char_eq_zero [of k] by simp
  have tw: "takeWhile is_digit (digit_char k # ds @ rest) = digits n"
    "dropWhile is_digit (digit_char k # ds @ rest) = rest"
    using takeWhile_digits [OF assms, of n] k by simp_all
  show ?thesis
    unfolding parse_int_part_def k(1)
    using c0 is_digit_digit_char [OF k(2)] tw
    by (simp add: digits_value_digits del: takeWhile.simps dropWhile.simps)
qed

lemma digit_char_neq:
  assumes "k < 10" and "unat c < 48 \<or> 57 < unat c"
  shows "digit_char k \<noteq> c"
  using assms unat_digit_char [of k] by auto

lemma digit_char_not_minus: "k < 10 \<Longrightarrow> digit_char k \<noteq> ch CHR ''-''"
  by (rule digit_char_neq) simp_all

lemma parse_number_number_to_string:
  assumes "\<bar>n\<bar> \<le> max_safe_integer" and "value_end rest"
  shows "parse_number (number_to_string n @ rest) = Inr (JNum n, rest)"
proof (cases "n < 0")
  case True
  have p: "parse_int_part (digits (nat (- n)) @ rest) = Inr (nat (- n), rest)"
    using parse_int_part_digits value_end_not_digit [OF assms(2)] by blast
  show ?thesis
    using True assms p
    by (simp add: parse_number_def number_to_string_def value_end_not_fraction)
next
  case False
  obtain k ds where k: "digits (nat n) = digit_char k # ds" "k < 10"
    using digits_head [of "nat n"] by blast
  have p: "parse_int_part (digit_char k # ds @ rest) = Inr (nat n, rest)"
    using parse_int_part_digits [of rest "nat n"] value_end_not_digit [OF assms(2)] k by simp
  show ?thesis
    using False assms p digit_char_not_minus [OF k(2)]
    by (simp add: parse_number_def number_to_string_def value_end_not_fraction k(1))
qed


subsection \<open>Strings\<close>

lemma skip_ws_non_ws: "\<not> is_json_ws c \<Longrightarrow> skip_ws (c # s) = c # s"
  by (simp add: skip_ws_def)

lemma value_start_not_ws: "value_start c \<Longrightarrow> \<not> is_json_ws c"
  unfolding value_start_def is_json_ws_def
  by (auto simp: digit_char_neq)

lemma mask4: "(0xF :: 16 word) = mask 4"
  by (simp add: mask_eq_exp_minus_1)

lemma nibbles_join:
  fixes c :: "16 word"
  shows "push_bit 12 (drop_bit 12 c) OR push_bit 8 (drop_bit 8 c AND 0xF)
         OR push_bit 4 (drop_bit 4 c AND 0xF) OR (c AND 0xF) = c"
  unfolding mask4
proof (rule bit_word_eqI)
  fix n :: nat
  assume n: "n < LENGTH(16)"
  consider "n < 4" | "4 \<le> n" "n < 8" | "8 \<le> n" "n < 12" | "12 \<le> n" by linarith
  then show "bit (push_bit 12 (drop_bit 12 c) OR push_bit 8 (drop_bit 8 c AND mask 4)
         OR push_bit 4 (drop_bit 4 c AND mask 4) OR (c AND mask 4)) n = bit c n"
    using n by cases (auto simp add: bit_simps)
qed

lemma and_15_less:
  fixes c :: "16 word"
  shows "c AND 0xF < 16"
  unfolding mask4 using and_mask_less' [of 4 c] by simp

lemma drop_bit_12_less:
  fixes c :: "16 word"
  shows "drop_bit 12 c < 16"
proof -
  have "unat c < 2 ^ 16" using unsigned_less [of c] by simp
  then have "unat c div 2 ^ 12 < 16" by (simp add: less_mult_imp_div_less)
  then show ?thesis
    by (simp add: word_less_nat_alt unat_drop_bit_eq drop_bit_eq_div unat_div)
qed

lemma hex_val_hex_char_concrete:
  "hex_val (hex_char 0) = Some 0" "hex_val (hex_char 1) = Some 1" "hex_val (hex_char 2) = Some 2"
  "hex_val (hex_char 3) = Some 3" "hex_val (hex_char 4) = Some 4" "hex_val (hex_char 5) = Some 5"
  "hex_val (hex_char 6) = Some 6" "hex_val (hex_char 7) = Some 7" "hex_val (hex_char 8) = Some 8"
  "hex_val (hex_char 9) = Some 9" "hex_val (hex_char 10) = Some 10" "hex_val (hex_char 11) = Some 11"
  "hex_val (hex_char 12) = Some 12" "hex_val (hex_char 13) = Some 13" "hex_val (hex_char 14) = Some 14"
  "hex_val (hex_char 15) = Some 15"
  by (simp_all add: hex_val_def hex_char_def)

lemma word16_less_16_cases:
  fixes d :: "16 word"
  assumes "d < 16"
  shows "d \<in> {0,1,2,3,4,5,6,7,8,9,10,11,12,13,14,15}"
proof -
  have "unat d < 16" using assms by (simp add: word_less_nat_alt)
  then have "unat d \<in> {0,1,2,3,4,5,6,7,8,9,10,11,12,13,14,15}"
    by simp arith
  then have "of_nat (unat d) \<in> (of_nat ` {0,1,2,3,4,5,6,7,8,9,10,11,12,13,14,15} :: 16 word set)"
    by (rule imageI)
  then show ?thesis
    by simp
qed

lemma hex_val_hex_char: 
  assumes "d < 16" shows "hex_val (hex_char d) = Some d"
  using word16_less_16_cases [OF assms] hex_val_hex_char_concrete
  by (elim insertE emptyE) simp_all

lemma hex4_unicode_escape:
  "hex4 (hex_char (drop_bit 12 c)) (hex_char (drop_bit 8 c AND 0xF))
        (hex_char (drop_bit 4 c AND 0xF)) (hex_char (c AND 0xF)) = Some c"
proof -
  have "hex_val (hex_char (drop_bit 12 c)) = Some (drop_bit 12 c)"
    "hex_val (hex_char (drop_bit 8 c AND 0xF)) = Some (drop_bit 8 c AND 0xF)"
    "hex_val (hex_char (drop_bit 4 c AND 0xF)) = Some (drop_bit 4 c AND 0xF)"
    "hex_val (hex_char (c AND 0xF)) = Some (c AND 0xF)"
    by (rule hex_val_hex_char, rule drop_bit_12_less and_15_less)+
  then show ?thesis
    unfolding hex4_def by (simp only: prod.case option.case nibbles_join)
qed




lemma parse_unicode_escape:
  "parse_string_chars (unicode_escape c @ X) = cons_char c (parse_string_chars X)"
  by (simp add: unicode_escape_def hex4_unicode_escape)


lemma surrogate_not_control:
  "is_high_surrogate c \<Longrightarrow> \<not> c < 0x20 \<and> c \<noteq> 0x22 \<and> c \<noteq> 0x5C"
  "is_low_surrogate c \<Longrightarrow> \<not> c < 0x20 \<and> c \<noteq> 0x22 \<and> c \<noteq> 0x5C"
  unfolding is_high_surrogate_def is_low_surrogate_def
  by (auto simp: word_le_nat_alt word_less_nat_alt)


lemma parse_plain_char:
  "c \<noteq> 0x22 \<Longrightarrow> c \<noteq> 0x5C \<Longrightarrow> \<not> c < 0x20 \<Longrightarrow>
   parse_string_chars (c # X) = cons_char c (parse_string_chars X)"
  by simp

lemma parse_simple_escape:
  "e \<noteq> ch CHR ''u'' \<Longrightarrow> unescape e = Some u \<Longrightarrow>
   parse_string_chars (0x5C # e # X) = cons_char u (parse_string_chars X)"
  by simp

lemma unescape_values:
  "unescape (ch CHR ''b'') = Some 0x08" "unescape (ch CHR ''t'') = Some 0x09"
  "unescape (ch CHR ''n'') = Some 0x0A" "unescape (ch CHR ''f'') = Some 0x0C"
  "unescape (ch CHR ''r'') = Some 0x0D" "unescape 0x22 = Some 0x22" "unescape 0x5C = Some 0x5C"
  by (simp_all add: unescape_def)

lemma parse_string_chars_quote_chars:
  "parse_string_chars (quote_chars s @ 0x22 # rest) = Inr (s, rest)"
proof (induction "length s" arbitrary: s rule: less_induct)
  case less
  show ?case
  proof (cases s)
    case Nil
    then show ?thesis by simp
  next
    case (Cons c cs)
    have IH: "parse_string_chars (quote_chars t @ 0x22 # rest) = Inr (t, rest)"
      if "length t < length s" for t
      using less that by blast
    have IHcs: "parse_string_chars (quote_chars cs @ 0x22 # rest) = Inr (cs, rest)"
      using IH [of cs] Cons by simp
    consider (simple) "c = 0x08 \<or> c = 0x09 \<or> c = 0x0A \<or> c = 0x0C \<or> c = 0x0D \<or> c = 0x22 \<or> c = 0x5C"
      | (control) "c \<noteq> 0x08" "c \<noteq> 0x09" "c \<noteq> 0x0A" "c \<noteq> 0x0C" "c \<noteq> 0x0D" "c \<noteq> 0x22" "c \<noteq> 0x5C" "c < 0x20"
      | (other) "c \<noteq> 0x08" "c \<noteq> 0x09" "c \<noteq> 0x0A" "c \<noteq> 0x0C" "c \<noteq> 0x0D" "c \<noteq> 0x22" "c \<noteq> 0x5C" "\<not> c < 0x20"
      by blast
    then show ?thesis
    proof cases
      case simple
      then show ?thesis
        using IHcs unfolding Cons
        by (elim disjE) (simp_all add: cons_char_def unescape_def del: parse_string_chars.simps add: parse_simple_escape)
    next
      case control
      then show ?thesis
        using IHcs unfolding Cons
        by (simp add: parse_unicode_escape cons_char_def del: parse_string_chars.simps)
    next
      case other
      show ?thesis
      proof (cases "is_high_surrogate c")
        case True
        note hi = this
        show ?thesis
        proof (cases cs)
          case Nil
          then show ?thesis
            using other hi unfolding Cons
            by (simp add: parse_unicode_escape cons_char_def del: parse_string_chars.simps) simp
        next
          case (Cons d ds)
          note cs = this
          show ?thesis
          proof (cases "is_low_surrogate d")
            case True
            have IHds: "parse_string_chars (quote_chars ds @ 0x22 # rest) = Inr (ds, rest)"
              using IH [of ds] cs \<open>s = c # cs\<close> by simp
            have q: "quote_chars s = c # d # quote_chars ds"
              using other hi True cs \<open>s = c # cs\<close> by simp
            show ?thesis
              unfolding q using other surrogate_not_control(2) [OF True] IHds cs \<open>s = c # cs\<close>
              by (simp add: parse_plain_char cons_char_def del: parse_string_chars.simps)
          next
            case False
            have q: "quote_chars s = unicode_escape c @ quote_chars cs"
              using other hi False cs \<open>s = c # cs\<close> by simp
            show ?thesis
              unfolding q using IHcs \<open>s = c # cs\<close>
              by (simp add: parse_unicode_escape cons_char_def del: parse_string_chars.simps)
          qed
        qed
      next
        case False
        note nhi = this
        show ?thesis
        proof (cases "is_low_surrogate c")
          case True
          have q: "quote_chars s = unicode_escape c @ quote_chars cs"
            using other nhi True Cons by simp
          show ?thesis
            unfolding q using IHcs Cons
            by (simp add: parse_unicode_escape cons_char_def del: parse_string_chars.simps)
        next
          case False
          have q: "quote_chars s = c # quote_chars cs"
            using other nhi False Cons by simp
          show ?thesis
            unfolding q using IHcs Cons other
            by (simp add: parse_plain_char cons_char_def del: parse_string_chars.simps)
        qed
      qed
    qed
  qed
qed


subsection \<open>Values\<close>

lemma value_start_neq_close:
  "value_start c \<Longrightarrow> c \<noteq> ch CHR '']'' \<and> c \<noteq> ch CHR ''}'' \<and> c \<noteq> ch CHR '','' \<and> c \<noteq> ch CHR '':''"
  unfolding value_start_def by (auto simp: digit_char_neq)

lemma JSON_stringify_start: "\<exists>c cs. JSON_stringify v = c # cs \<and> value_start c"
proof (cases v)
  case (JNum n)
  obtain k ds where "digits (nat n) = digit_char k # ds" "k < 10"
    using digits_head [of "nat n"] by blast
  then show ?thesis
    using JNum by (auto simp: number_to_string_def value_start_def)
qed (auto simp: value_start_def js_def quote_json_string_def)

lemma skip_ws_JSON_stringify: "skip_ws (JSON_stringify v @ r) = JSON_stringify v @ r"
proof -
  obtain c cs where "JSON_stringify v = c # cs" "value_start c"
    using JSON_stringify_start by blast
  then show ?thesis by (simp add: skip_ws_non_ws value_start_not_ws)
qed

lemma JSON_stringify_not_Nil: "JSON_stringify v \<noteq> []"
  using JSON_stringify_start [of v] by auto

text \<open>The punctuation as numerals: \<open>]\<close> is 0x5D, \<open>}\<close> is 0x7D, \<open>,\<close> is 0x2C, \<open>:\<close> is 0x3A.\<close>

lemma skip_ws_punct:
  "skip_ws (0x5D # r) = 0x5D # r"
  "skip_ws (0x7D # r) = 0x7D # r"
  "skip_ws (0x2C # r) = 0x2C # r"
  "skip_ws (0x3A # r) = 0x3A # r"
  "skip_ws (0x22 # r) = 0x22 # r"
  "skip_ws [] = []"
  by (simp_all add: skip_ws_def is_json_ws_def)

lemma value_end_punct:
  "value_end (0x5D # r)" "value_end (0x7D # r)" "value_end (0x2C # r)" "value_end []"
  by (simp_all add: value_end_def)

lemma join_comma_map_Cons:
  "join_comma (map f (x # y # ys)) = f x @ ch CHR '','' # join_comma (map f (y # ys))"
  by simp

lemma parse_elements_join:
  assumes "\<And>v r. v \<in> set vs \<Longrightarrow> value_end r \<Longrightarrow> parse_value (JSON_stringify v @ r) = Inr (v, r)"
    and "vs \<noteq> []"
  shows "parse_elements (join_comma (map JSON_stringify vs) @ 0x5D # rest) = Inr (vs, rest)"
  using assms
proof (induction vs)
  case Nil
  then show ?case by simp
next
  case (Cons v vs)
  note outer_IH = Cons.IH and prem = Cons.prems(1)
  have pv: "parse_value (JSON_stringify v @ r) = Inr (v, r)" if "value_end r" for r
    using prem that by simp
  show ?case
  proof (cases vs)
    case Nil
    show ?thesis
      unfolding Nil
      by (subst parse_elements.simps)
         (simp add: pv value_end_punct skip_ws_punct JSON_stringify_not_Nil)
  next
    case (Cons w ws)
    have IH: "parse_elements (join_comma (map JSON_stringify (w # ws)) @ 0x5D # rest)
                = Inr (w # ws, rest)"
      unfolding Cons [symmetric]
    proof (rule outer_IH)
      show "parse_value (JSON_stringify u @ r) = Inr (u, r)" if "u \<in> set vs" "value_end r" for u r
        using prem that by simp
      show "vs \<noteq> []" using Cons by simp
    qed
    have sk: "skip_ws (join_comma (map JSON_stringify (w # ws)) @ 0x5D # rest)
                = join_comma (map JSON_stringify (w # ws)) @ 0x5D # rest"
      using skip_ws_JSON_stringify [of w] by (cases ws) simp_all
    show ?thesis
      unfolding Cons join_comma_map_Cons append_assoc append_Cons
      by (subst parse_elements.simps)
         (simp add: pv value_end_punct skip_ws_punct JSON_stringify_not_Nil sk IH
               del: join_comma.simps list.map)
  qed
qed

lemma parse_JStr: "parse_value (quote_json_string s @ rest) = Inr (JStr s, rest)"
  by (simp add: quote_json_string_def parse_value.simps parse_string_chars_quote_chars)

lemma parse_members_join:
  assumes "\<And>k v r. (k, v) \<in> set ms \<Longrightarrow> value_end r \<Longrightarrow>
             parse_value (JSON_stringify v @ r) = Inr (v, r)"
    and "ms \<noteq> []"
  shows "parse_members
           (join_comma (map (\<lambda>(k, v). quote_json_string k @ 0x3A # JSON_stringify v) ms)
            @ 0x7D # rest) = Inr (ms, rest)"
  using assms
proof (induction ms)
  case Nil
  then show ?case by simp
next
  case (Cons m ms)
  note outer_IH = Cons.IH and prem = Cons.prems(1)
  obtain k v where m: "m = (k, v)" by (cases m)
  have pv: "parse_value (JSON_stringify v @ r) = Inr (v, r)" if "value_end r" for r
    using prem [of k v r] that m by simp
  have ps: "parse_string_chars (quote_chars k @ 0x22 # r) = Inr (k, r)" for r
    by (rule parse_string_chars_quote_chars)
  show ?case
  proof (cases ms)
    case Nil
    show ?thesis
      unfolding Nil m
      by (simp add: quote_json_string_def)
         (simp add: parse_members.simps ps pv value_end_punct skip_ws_punct JSON_stringify_not_Nil
                    skip_ws_JSON_stringify)
  next
    case (Cons m' ms')
    have IH: "parse_members
           (join_comma (map (\<lambda>(k, v). quote_json_string k @ 0x3A # JSON_stringify v) (m' # ms'))
            @ 0x7D # rest) = Inr (m' # ms', rest)"
      unfolding Cons [symmetric]
    proof (rule outer_IH)
      show "parse_value (JSON_stringify u @ r) = Inr (u, r)" if "(j, u) \<in> set ms" "value_end r" for j u r
        using prem [of j u r] that by simp
      show "ms \<noteq> []" using Cons by simp
    qed
    have sk: "skip_ws (join_comma (map (\<lambda>(k, v). quote_json_string k @ 0x3A # JSON_stringify v) (m' # ms'))
            @ 0x7D # rest)
         = join_comma (map (\<lambda>(k, v). quote_json_string k @ 0x3A # JSON_stringify v) (m' # ms'))
            @ 0x7D # rest"
      by (cases ms'; cases m') (simp_all add: quote_json_string_def skip_ws_punct)
    have step: "parse_members (0x22 # quote_chars k @ 0x22 # 0x3A # JSON_stringify v @ 0x2C # X)
                  = (case parse_members (skip_ws X) of Inl e \<Rightarrow> Inl e
                     | Inr (ms, rest'') \<Rightarrow> Inr ((k, v) # ms, rest''))" for X
      by (simp add: parse_members.simps(2) ps pv value_end_punct skip_ws_punct JSON_stringify_not_Nil
                    skip_ws_JSON_stringify)
    have unfold: "join_comma (map (\<lambda>(k, v). quote_json_string k @ 0x3A # JSON_stringify v) (m # ms)) @ 0x7D # rest
          = 0x22 # quote_chars k @ 0x22 # 0x3A # JSON_stringify v @ 0x2C #
            (join_comma (map (\<lambda>(k, v). quote_json_string k @ 0x3A # JSON_stringify v) (m' # ms')) @ 0x7D # rest)"
      unfolding Cons m by (simp add: quote_json_string_def)
    show ?thesis
      unfolding unfold step sk IH using m Cons by simp
  qed
qed


lemma parse_value_number:
  "parse_value (number_to_string n @ rest) = parse_number (number_to_string n @ rest)"
proof -
  obtain k ds where k: "digits (nat n) = digit_char k # ds" "k < 10"
    using digits_head [of "nat n"] by blast
  have "digit_char k \<noteq> 0x22" "digit_char k \<noteq> 0x5B" "digit_char k \<noteq> 0x7B"
    "digit_char k \<noteq> 0x6E" "digit_char k \<noteq> 0x74" "digit_char k \<noteq> 0x66"
    using k(2) by (simp_all add: digit_char_neq)
  then show ?thesis
    using k(1) by (simp add: number_to_string_def parse_value.simps)
qed

lemma parse_value_JSON_stringify:
  "wf_json v \<Longrightarrow> value_end rest \<Longrightarrow> parse_value (JSON_stringify v @ rest) = Inr (v, rest)"
proof (induction v arbitrary: rest)
  case JNull
  show ?case by (simp add: js_def parse_value.simps parse_literal_def)
next
  case (JBool b)
  show ?case by (simp add: js_def parse_value.simps parse_literal_def)
next
  case (JNum n)
  then show ?case
    by (simp add: parse_value_number parse_number_number_to_string)
next
  case (JStr s)
  show ?case by (simp add: parse_JStr)
next
  case (JArr vs)
  show ?case
  proof (cases vs)
    case Nil
    then show ?thesis by (simp add: parse_value.simps skip_ws_punct)
  next
    case (Cons w ws)
    have el: "parse_elements (join_comma (map JSON_stringify vs) @ 0x5D # rest) = Inr (vs, rest)"
    proof (rule parse_elements_join)
      show "parse_value (JSON_stringify u @ r) = Inr (u, r)" if "u \<in> set vs" "value_end r" for u r
        using JArr.IH [OF that(1) _ that(2)] JArr.prems(1) that(1) by (simp add: list_all_iff)
      show "vs \<noteq> []" using Cons by simp
    qed
    obtain c cs where c: "JSON_stringify w = c # cs" "value_start c"
      using JSON_stringify_start by blast
    obtain t where t: "join_comma (map JSON_stringify vs) = c # t"
      using c(1) Cons by (cases ws) auto
    have sk: "skip_ws (c # t @ 0x5D # rest) = c # t @ 0x5D # rest"
      using c(2) by (simp add: skip_ws_non_ws value_start_not_ws)
    show ?thesis
      using el value_start_neq_close [OF c(2)]
      by (simp add: parse_value.simps t sk)
  qed
next
  case (JObj ms)
  show ?case
  proof (cases ms)
    case Nil
    then show ?thesis by (simp add: parse_value.simps skip_ws_punct)
  next
    case (Cons m ms')
    have el: "parse_members
           (join_comma (map (\<lambda>(k, v). quote_json_string k @ 0x3A # JSON_stringify v) ms)
            @ 0x7D # rest) = Inr (ms, rest)"
    proof (rule parse_members_join)
      show "parse_value (JSON_stringify u @ r) = Inr (u, r)" if "(j, u) \<in> set ms" "value_end r" for j u r
      proof (rule JObj.IH [OF that(1) _ _ that(2)])
        show "u \<in> Basic_BNFs.snds (j, u)" by simp
        show "wf_json u" using JObj.prems(1) that(1) by (auto simp: list_all_iff)
      qed
      show "ms \<noteq> []" using Cons by simp
    qed
    obtain t where t: "join_comma (map (\<lambda>(k, v). quote_json_string k @ 0x3A # JSON_stringify v) ms) = 0x22 # t"
      using Cons by (cases ms'; cases m) (auto simp: quote_json_string_def)
    show ?thesis
      using el JObj.prems(1)
      by (simp add: parse_value.simps t skip_ws_punct)
  qed
qed

lemma JSON_parse_JSON_stringify: "wf_json v \<Longrightarrow> JSON_parse (JSON_stringify v) = Inr v"
  using parse_value_JSON_stringify [of v "[]"] skip_ws_JSON_stringify [of v "[]"]
  by (simp add: JSON_parse_def value_end_punct skip_ws_punct)

section \<open>The task store\<close>

lemma js_active_neq_completed: "js ''active'' \<noteq> js ''completed''"
  by (simp add: js_def)

lemma trim_buy_milk: "trim (js ''Buy milk'') = js ''Buy milk''"
  by (simp add: trim_def js_def is_js_space_def)

lemma trim_blank: "trim [0x20, 0x09, 0x3000, 0x20] = []"
  by (simp add: trim_def is_js_space_def)

lemma ids_toggleTodo: "map id_of (toggleTodo i ts) = map id_of ts"
  by (induction ts) (simp_all add: toggleTodo_def)

text \<open>
  Every intent keeps the ids distinct, as long as an added task gets a clock reading that
  is not yet an id of the collection.
\<close>

lemma dispatch_keeps_distinct:
  assumes "distinct (map id_of ts)"
    and "\<And>now stamp text p. op = Add now stamp text p \<Longrightarrow> now \<notin> id_of ` set ts"
  shows "distinct (map id_of (dispatch ts op))"
proof (cases op)
  case (Add now stamp tx p)
  then show ?thesis using assms by (simp add: addTodo_def)
next
  case (Toggle i)
  then show ?thesis using assms(1) by (simp add: ids_toggleTodo)
next
  case (Delete i)
  then show ?thesis using assms(1) by (simp add: deleteTodo_def distinct_map_filter)
next
  case ClearCompleted
  then show ?thesis using assms(1) by (simp add: clearCompleted_def distinct_map_filter)
qed

text \<open>
  The scenario of the specification: two tasks are added, the older one is toggled and
  shows under the filter \<open>completed\<close>, and clearing leaves the newer one.
\<close>

lemma scenario:
  "run [Add 1700000000000 (js ''2023-11-14T22:13:20.000Z'') (js ''Buy milk'') (js ''low''),
        Add 1700000004321 (js ''2023-11-14T22:13:24.321Z'') (js ''Call Bob'') (js ''high'')]
     = [call_bob, buy_milk]"
  "filteredTodos (toggleTodo 1700000000000 [call_bob, buy_milk]) (js ''completed'')
     = [buy_milk\<lparr>completed := True\<rparr>]"
  "clearCompleted (toggleTodo 1700000000000 [call_bob, buy_milk]) = [call_bob]"
proof -
  have t: "trim (js ''Buy milk'') \<noteq> []" "trim (js ''Call Bob'') \<noteq> []"
    by (simp_all add: trim_def js_def is_js_space_def)
  show "run [Add 1700000000000 (js ''2023-11-14T22:13:20.000Z'') (js ''Buy milk'') (js ''low''),
        Add 1700000004321 (js ''2023-11-14T22:13:24.321Z'') (js ''Call Bob'') (js ''high'')]
     = [call_bob, buy_milk]"
    using t by (simp add: run_def addTodo_def buy_milk_def call_bob_def)
  show "filteredTodos (toggleTodo 1700000000000 [call_bob, buy_milk]) (js ''completed'')
     = [buy_milk\<lparr>completed := True\<rparr>]"
    using js_active_neq_completed
    by (simp add: filteredTodos_def toggleTodo_def buy_milk_def call_bob_def)
  show "clearCompleted (toggleTodo 1700000000000 [call_bob, buy_milk]) = [call_bob]"
    by (simp add: clearCompleted_def toggleTodo_def buy_milk_def call_bob_def)
qed

text \<open>Two tasks added at the same clock reading: the run used for C3 and C5.\<close>

lemma run_same_clock:
  "run [Add 1700000000000 (js ''2023-11-14T22:13:20.000Z'') (js ''Buy milk'') (js ''low''),
        Add 1700000000000 (js ''2023-11-14T22:13:20.000Z'') (js ''Buy eggs'') (js ''low'')]
     = [buy_milk\<lparr>text_of := js ''Buy eggs''\<rparr>, buy_milk]"
proof -
  have "trim (js ''Buy milk'') \<noteq> []" "trim (js ''Buy eggs'') \<noteq> []"
    by (simp_all add: trim_def js_def is_js_space_def)
  then show ?thesis
    by (simp add: run_def addTodo_def buy_milk_def)
qed

section \<open>Persistence\<close>

lemma plain_keys_todo:
  "plain_keys [js ''id'', js ''text'', js ''completed'', js ''priority'', js ''createdAt'']"
  by (simp add: plain_keys_def is_array_index_def is_digit_def js_def)

lemma wf_json_of_todos: "list_all wf_todo ts \<Longrightarrow> wf_json (json_of_todos ts)"
  by (induction ts) (simp_all add: json_of_todos_def json_of_todo_def wf_todo_def plain_keys_todo)

lemma todo_of_json_of_todo: "todo_of_json (json_of_todo t) = Some t"
  by (simp add: todo_of_json_def json_of_todo_def js_def)

lemma todos_of_json_of_todos: "todos_of_json (json_of_todos ts) = Some ts"
  by (induction ts) (simp_all add: todos_of_json_def json_of_todos_def todo_of_json_of_todo)

lemma JSON_parse_truncated: "JSON_parse (js ''[{'') = Inl SyntaxError"
  by (simp add: JSON_parse_def js_def skip_ws_def is_json_ws_def parse_value.simps
        parse_elements.simps [of "[0x7B]"])

lemma JSON_parse_empty_array: "JSON_parse (js ''[]'') = Inr (JArr [])"
  by (simp add: JSON_parse_def js_def skip_ws_def is_json_ws_def parse_value.simps)

section \<open>The claims\<close>

text \<open>
  C1 (as amended): loading the collection gives the empty array when nothing is stored under
  \<open>modern_todos\<close> or the stored string is empty; for every other stored string the result
  is the outcome of \<open>JSON.parse\<close> on it, its \<open>SyntaxError\<close> included.
\<close>

theorem load_todos_cases:
  "(st (js ''modern_todos'') = None \<or> st (js ''modern_todos'') = Some [] \<longrightarrow>
      load_todos st = Inr (JArr []))
   \<and> (\<forall>saved. st (js ''modern_todos'') = Some saved \<and> saved \<noteq> [] \<longrightarrow>
         load_todos st = JSON_parse saved)"
  by (auto simp: load_todos_def)

theorem load_todos_cases_witness:
  "load_todos Map.empty = Inr (JArr [])
   \<and> load_todos [js ''modern_todos'' \<mapsto> []] = Inr (JArr [])
   \<and> load_todos [js ''modern_todos'' \<mapsto> js ''[]''] = JSON_parse (js ''[]'')"
  using load_todos_cases [of Map.empty]
    load_todos_cases [of "[js ''modern_todos'' \<mapsto> []]"]
    load_todos_cases [of "[js ''modern_todos'' \<mapsto> js ''[]'']", THEN conjunct2, THEN spec, of "js ''[]''"]
  by (simp add: js_def)

text \<open>
  C1 as stated fails: with the truncated text \<open>[{\<close> stored, deserialization fails and the
  initialiser ends in the \<open>SyntaxError\<close> instead of the empty array.
\<close>

theorem load_todos_malformed_counterexample:
  "JSON_parse (js ''[{'') = Inl SyntaxError
   \<and> load_todos [js ''modern_todos'' \<mapsto> js ''[{''] = Inl SyntaxError
   \<and> load_todos [js ''modern_todos'' \<mapsto> js ''[{''] \<noteq> Inr (JArr [])"
  using JSON_parse_truncated by (simp add: load_todos_def) (simp add: js_def)

text \<open>
  C2: when the trimmed text is not empty, \<open>addTodo\<close> gives a collection one longer: the new
  task in front of the previous collection; the new task is not completed and carries the
  given priority and text.
\<close>

theorem addTodo_nonblank:
  assumes "trim text \<noteq> []"
  shows "length (addTodo now stamp text p prev) = length prev + 1
       \<and> addTodo now stamp text p prev
           = \<lparr>id_of = now, text_of = text, completed = False, priority = p, createdAt = stamp\<rparr> # prev
       \<and> completed (hd (addTodo now stamp text p prev)) = False
       \<and> priority (hd (addTodo now stamp text p prev)) = p
       \<and> text_of (hd (addTodo now stamp text p prev)) = text"
  using assms by (simp add: addTodo_def)

theorem addTodo_nonblank_witness:
  "trim (js ''Buy milk'') \<noteq> []
   \<and> addTodo 1700000000000 (js ''2023-11-14T22:13:20.000Z'') (js ''Buy milk'') (js ''low'') []
       = [\<lparr>id_of = 1700000000000, text_of = js ''Buy milk'', completed = False,
           priority = js ''low'', createdAt = js ''2023-11-14T22:13:20.000Z''\<rparr>]"
proof -
  have h: "trim (js ''Buy milk'') \<noteq> []"
    by (simp add: trim_buy_milk) (simp add: js_def)
  show ?thesis
    using h addTodo_nonblank [OF h, of 1700000000000 "js ''2023-11-14T22:13:20.000Z''" "js ''low''" "[]"]
    by simp
qed

text \<open>
  C3: the ids of a collection reached from the empty one are distinct. The code takes the id
  from the clock, and two tasks added at the same clock reading get the same id: this run
  reaches a collection with a repeated id.
\<close>

theorem duplicate_ids_reachable:
  "\<not> distinct (map id_of
        (run [Add 1700000000000 (js ''2023-11-14T22:13:20.000Z'') (js ''Buy milk'') (js ''low''),
              Add 1700000000000 (js ''2023-11-14T22:13:20.000Z'') (js ''Buy eggs'') (js ''low'')]))"
  by (simp add: run_same_clock buy_milk_def)

text \<open>
  C4: \<open>toggleTodo\<close> keeps the length; at every position, a task with the given id has
  \<open>completed\<close> flipped and its other fields unchanged, and a task with another id is
  unchanged; when no task has the id, the collection is unchanged.
\<close>

theorem toggleTodo_frame:
  "length (toggleTodo i prev) = length prev
   \<and> (\<forall>n < length prev.
         (id_of (prev ! n) = i \<longrightarrow>
            completed (toggleTodo i prev ! n) = (\<not> completed (prev ! n))
          \<and> id_of (toggleTodo i prev ! n) = id_of (prev ! n)
          \<and> text_of (toggleTodo i prev ! n) = text_of (prev ! n)
          \<and> priority (toggleTodo i prev ! n) = priority (prev ! n)
          \<and> createdAt (toggleTodo i prev ! n) = createdAt (prev ! n))
       \<and> (id_of (prev ! n) \<noteq> i \<longrightarrow> toggleTodo i prev ! n = prev ! n))
   \<and> (i \<notin> id_of ` set prev \<longrightarrow> toggleTodo i prev = prev)"
proof -
  have "i \<notin> id_of ` set prev \<Longrightarrow> toggleTodo i prev = prev"
    unfolding toggleTodo_def by (induction prev) auto
  then show ?thesis by (simp add: toggleTodo_def)
qed

theorem toggleTodo_frame_witness:
  "completed (toggleTodo 1700000000000 [call_bob, buy_milk] ! 1) = True
   \<and> id_of (toggleTodo 1700000000000 [call_bob, buy_milk] ! 1) = 1700000000000
   \<and> toggleTodo 1700000000000 [call_bob, buy_milk] ! 0 = call_bob
   \<and> toggleTodo 42 [call_bob, buy_milk] = [call_bob, buy_milk]"
  using toggleTodo_frame [of 1700000000000 "[call_bob, buy_milk]", THEN conjunct2, THEN conjunct1, THEN spec, of 1]
    toggleTodo_frame [of 1700000000000 "[call_bob, buy_milk]", THEN conjunct2, THEN conjunct1, THEN spec, of 0]
    toggleTodo_frame [of 42 "[call_bob, buy_milk]", THEN conjunct2, THEN conjunct2]
  by (simp add: buy_milk_def call_bob_def)

text \<open>
  C5 (as amended): when no task has the id, \<open>deleteTodo\<close> leaves the collection unchanged;
  in a collection with distinct ids that has a task with the id, it removes that one task,
  the tasks before and after it stay in their order, and the length goes down by one.
\<close>

theorem deleteTodo_exact:
  "(i \<notin> id_of ` set prev \<longrightarrow> deleteTodo i prev = prev)
   \<and> (distinct (map id_of prev) \<and> i \<in> id_of ` set prev \<longrightarrow>
        (\<exists>xs t ys. prev = xs @ t # ys \<and> id_of t = i \<and> deleteTodo i prev = xs @ ys)
        \<and> length (deleteTodo i prev) + 1 = length prev)"
proof (intro conjI impI)
  assume "i \<notin> id_of ` set prev"
  then show "deleteTodo i prev = prev"
    unfolding deleteTodo_def by (induction prev) auto
next
  assume a: "distinct (map id_of prev) \<and> i \<in> id_of ` set prev"
  then obtain t where t: "t \<in> set prev" "id_of t = i" by auto
  then obtain xs ys where split: "prev = xs @ t # ys"
    by (meson split_list)
  from a split t have "i \<notin> id_of ` set xs" "i \<notin> id_of ` set ys"
    by auto
  then have "\<forall>x \<in> set xs. id_of x \<noteq> i" "\<forall>y \<in> set ys. id_of y \<noteq> i"
    by blast+
  then have del: "deleteTodo i prev = xs @ ys"
    using t split by (simp add: deleteTodo_def)
  show "\<exists>xs t ys. prev = xs @ t # ys \<and> id_of t = i \<and> deleteTodo i prev = xs @ ys"
    using split t del by blast
  show "length (deleteTodo i prev) + 1 = length prev"
    using split del by simp
qed

theorem deleteTodo_exact_witness:
  "distinct (map id_of [call_bob, buy_milk])
   \<and> 1700000000000 \<in> id_of ` set [call_bob, buy_milk]
   \<and> length (deleteTodo 1700000000000 [call_bob, buy_milk]) + 1 = length [call_bob, buy_milk]
   \<and> 42 \<notin> id_of ` set [call_bob, buy_milk]
   \<and> deleteTodo 42 [call_bob, buy_milk] = [call_bob, buy_milk]"
  using deleteTodo_exact [of 1700000000000 "[call_bob, buy_milk]", THEN conjunct2]
    deleteTodo_exact [of 42 "[call_bob, buy_milk]", THEN conjunct1]
  by (simp add: buy_milk_def call_bob_def)

text \<open>
  C5 as stated fails on a collection with a repeated id, such as the one reached by adding
  two tasks at the same clock reading: it has two tasks, one of them has the id, and
  deleting by that id leaves none.
\<close>

theorem deleteTodo_duplicate_counterexample:
  "1700000000000 \<in> id_of ` set
      (run [Add 1700000000000 (js ''2023-11-14T22:13:20.000Z'') (js ''Buy milk'') (js ''low''),
            Add 1700000000000 (js ''2023-11-14T22:13:20.000Z'') (js ''Buy eggs'') (js ''low'')])
   \<and> length
      (run [Add 1700000000000 (js ''2023-11-14T22:13:20.000Z'') (js ''Buy milk'') (js ''low''),
            Add 1700000000000 (js ''2023-11-14T22:13:20.000Z'') (js ''Buy eggs'') (js ''low'')]) = 2
   \<and> length (deleteTodo 1700000000000
      (run [Add 1700000000000 (js ''2023-11-14T22:13:20.000Z'') (js ''Buy milk'') (js ''low''),
            Add 1700000000000 (js ''2023-11-14T22:13:20.000Z'') (js ''Buy eggs'') (js ''low'')])) = 0"
  by (simp add: run_same_clock deleteTodo_def buy_milk_def)

text \<open>
  C6: \<open>clearCompleted\<close> keeps exactly the tasks that are not completed, in their order:
  no completed task of the collection is in the result, every task that is not completed is.
\<close>

theorem clearCompleted_exact:
  "clearCompleted prev = filter (\<lambda>t. \<not> completed t) prev
   \<and> (\<forall>t \<in> set prev. completed t \<longrightarrow> t \<notin> set (clearCompleted prev))
   \<and> (\<forall>t \<in> set prev. \<not> completed t \<longrightarrow> t \<in> set (clearCompleted prev))
   \<and> set (clearCompleted prev) \<subseteq> set prev
   \<and> subseq (clearCompleted prev) prev"
  by (auto simp: clearCompleted_def)

theorem clearCompleted_exact_witness:
  "call_bob \<in> set (clearCompleted [buy_milk\<lparr>completed := True\<rparr>, call_bob])
   \<and> buy_milk\<lparr>completed := True\<rparr> \<notin> set (clearCompleted [buy_milk\<lparr>completed := True\<rparr>, call_bob])"
  using clearCompleted_exact [of "[buy_milk\<lparr>completed := True\<rparr>, call_bob]"]
  by (simp add: buy_milk_def call_bob_def)

text \<open>
  C7: the visible tasks are a function of the collection and the filter: under \<open>active\<close>
  the tasks that are not completed, under \<open>completed\<close> the completed ones, both in the
  order of the collection, and under \<open>all\<close> the collection itself.
\<close>

theorem filteredTodos_filters:
  "filteredTodos todos (js ''active'') = filter (\<lambda>t. \<not> completed t) todos
   \<and> filteredTodos todos (js ''completed'') = filter completed todos
   \<and> filteredTodos todos (js ''all'') = todos
   \<and> subseq (filteredTodos todos (js ''active'')) todos
   \<and> subseq (filteredTodos todos (js ''completed'')) todos"
proof -
  have 1: "js ''completed'' \<noteq> js ''active''" "js ''all'' \<noteq> js ''active''" "js ''all'' \<noteq> js ''completed''"
    by (simp_all add: js_def)
  show ?thesis
    by (simp add: filteredTodos_def 1)
qed

text \<open>
  C8: for a collection of well-formed tasks, writing it to storage and loading it again gives
  the array of the same task objects, from which the same tasks are read, field by field
  and in the same order.
\<close>

theorem persist_then_load:
  assumes "list_all wf_todo ts"
  shows "load_todos (persist_todos st ts) = Inr (json_of_todos ts)
       \<and> todos_of_json (json_of_todos ts) = Some ts"
  using JSON_parse_JSON_stringify [OF wf_json_of_todos [OF assms]]
  by (simp add: load_todos_def persist_todos_def JSON_stringify_not_Nil todos_of_json_of_todos)

theorem persist_then_load_witness:
  "list_all wf_todo [call_bob, buy_milk]
   \<and> load_todos (persist_todos Map.empty [call_bob, buy_milk]) = Inr (json_of_todos [call_bob, buy_milk])
   \<and> todos_of_json (json_of_todos [call_bob, buy_milk]) = Some [call_bob, buy_milk]"
proof -
  have h: "list_all wf_todo [call_bob, buy_milk]"
    by (simp add: wf_todo_def max_safe_integer_def buy_milk_def call_bob_def)
  show ?thesis
    using h persist_then_load [OF h, of Map.empty] by simp
qed

text \<open>
  C9: when the trimmed text is empty, \<open>addTodo\<close> gives back the collection as it was; the
  function has no other outcome.
\<close>

theorem addTodo_blank:
  assumes "trim text = []"
  shows "addTodo now stamp text p prev = prev"
  using assms by (simp add: addTodo_def)

theorem addTodo_blank_witness:
  "trim [0x20, 0x09, 0x3000, 0x20] = []
   \<and> addTodo 1700000004321 (js ''2023-11-14T22:13:24.321Z'') [0x20, 0x09, 0x3000, 0x20] (js ''low'')
        [buy_milk] = [buy_milk]"
  using addTodo_blank [OF trim_blank] trim_blank by simp

text \<open>
  C10: for every filter string other than \<open>active\<close> and \<open>completed\<close>, the visible tasks are
  the whole collection.
\<close>

theorem filteredTodos_other:
  assumes "flt \<noteq> js ''active''" and "flt \<noteq> js ''completed''"
  shows "filteredTodos todos flt = todos"
  using assms by (simp add: filteredTodos_def)

theorem filteredTodos_other_witness:
  "js ''done'' \<noteq> js ''active'' \<and> js ''done'' \<noteq> js ''completed''
   \<and> filteredTodos [buy_milk\<lparr>completed := True\<rparr>, call_bob] (js ''done'')
       = [buy_milk\<lparr>completed := True\<rparr>, call_bob]"
proof -
  have h: "js ''done'' \<noteq> js ''active''" "js ''done'' \<noteq> js ''completed''"
    by (simp_all add: js_def)
  show ?thesis
    using h filteredTodos_other [OF h, of "[buy_milk\<lparr>completed := True\<rparr>, call_bob]"] by simp
qed

end
